theory Spec2Isabelle
  imports Main "HOL-Library.Sublist" "HOL-Library.Word"
begin

unbundle bit_operations_syntax

section \<open>Data model\<close>

text \<open>
  Go strings are byte sequences; \<^typ>\<open>string\<close> is a list of 8-bit characters, so
  \<open>len\<close> is \<^const>\<open>length\<close>, \<open>s[:i]\<close> is \<^const>\<open>take\<close> and \<open>s[i:]\<close> is
  \<^const>\<open>drop\<close>.

  Errors are values. \<open>Errorf msg err\<close> is \<open>fmt.Errorf(msg + "%w", err)\<close>;
  \<open>ErrSerialReaderClosed\<close> is \<open>fmt.Errorf("serialreader closed")\<close>; \<open>ErrInvalid\<close> and
  \<open>ErrFileClosed\<close> are what the methods of \<open>os.File\<close> report on a nil and on a closed
  handle; \<open>EOF\<close> is \<open>io.EOF\<close>.
\<close>

datatype error =
    Errno nat
  | Errorf string error
  | ErrSerialReaderClosed
  | ErrInvalid
  | ErrFileClosed
  | EOF

definition EIO :: error where "EIO = Errno 5"
definition EBADF :: error where "EBADF = Errno 9"

record Termios =
  Iflag :: "32 word"
  Oflag :: "32 word"
  Cflag :: "32 word"
  Lflag :: "32 word"
  Cc :: "8 word list"

record Config =
  Device :: string
  BaudRate :: int
  Delimiter :: string
  ReadTimeout :: int

text \<open>
  An \<open>os.File\<close> wraps a descriptor number; \<open>os.NewFile\<close> does not duplicate the
  descriptor, so the handle and the raw number denote the same kernel object.
\<close>

record File =
  file_fd :: int
  file_name :: string
  file_closed :: bool

text \<open>
  The struct \<open>SerialReader\<close>. The channel \<open>done\<close> carries no values: all the code
  observes of it is whether it has been closed (\<open>done_ch\<close>). \<open>closeOnce\<close> is the
  \<open>sync.Once\<close>: whether its function has run.
\<close>

record SerialReader =
  fd :: int
  file_ptr :: "File option"
  done_ch :: bool
  closeOnce :: bool
  config :: Config
  pipeR :: int
  pipeW :: int

text \<open>
  Everything a call does besides returning: the system calls it issues (a close with
  what the kernel answered) and the callbacks it invokes, in order.
\<close>

datatype action =
    Sys_open string
  | Sys_tcgets int
  | Sys_tcsets int Termios
  | Sys_setnonblock int bool
  | Sys_pipe
  | Sys_poll int int
  | Sys_read int
  | Sys_write int string
  | Sys_close int "error option"
  | Chan_close
  | File_read int
  | File_write int string
  | OnLine string
  | OnError error

text \<open>The process as the kernel sees it: the open descriptor numbers, and the log.\<close>

record kernel =
  fds :: "int set"
  trace :: "action list"

definition log :: "action \<Rightarrow> kernel \<Rightarrow> kernel" where
  "log a k = k\<lparr>trace := trace k @ [a]\<rparr>"

text \<open>
  \<open>close(2)\<close> on number \<open>n\<close>: \<open>EBADF\<close> when \<open>n\<close> is not open, otherwise the
  descriptor is released and the call reports \<open>res\<close> (what the device answers).
\<close>

definition sys_close :: "error option \<Rightarrow> int \<Rightarrow> kernel \<Rightarrow> error option \<times> kernel" where
  "sys_close res n k =
     (let r = (if n \<in> fds k then res else Some EBADF)
      in (r, \<lparr>fds = fds k - {n}, trace = trace k @ [Sys_close n r]\<rparr>))"

section \<open>The library functions the code calls\<close>

text \<open>
  \<open>strings.Index(s, substr)\<close>: the index of the first instance of \<open>substr\<close> in
  \<open>s\<close>, or \<open>-1\<close>; the empty string is found at index 0 of every string.
\<close>

fun Index :: "string \<Rightarrow> string \<Rightarrow> int" where
  "Index [] substr = (if substr = [] then 0 else - 1)"
| "Index (c # s) substr =
     (if prefix substr (c # s) then 0
      else (let i = Index s substr in if i < 0 then - 1 else i + 1))"

text \<open>\<open>os.NewFile(fd, name)\<close>: nil for an invalid descriptor number.\<close>

definition NewFile :: "int \<Rightarrow> string \<Rightarrow> File option" where
  "NewFile n name =
     (if n < 0 then None else Some \<lparr>file_fd = n, file_name = name, file_closed = False\<rparr>)"

text \<open>
  \<open>Close\<close> of \<open>os.File\<close>: closes the wrapped descriptor number and marks the handle;
  a second call reports an error and closes nothing.
\<close>

definition File_Close :: "error option \<Rightarrow> File \<Rightarrow> kernel \<Rightarrow> error option \<times> File \<times> kernel" where
  "File_Close res f k =
     (if file_closed f then (Some ErrFileClosed, f, k)
      else (let (r, k') = sys_close res (file_fd f) k
            in (r, f\<lparr>file_closed := True\<rparr>, k')))"

text \<open>
  \<open>Read\<close> and \<open>WriteString\<close> of \<open>os.File\<close>: a nil or closed handle answers without a
  system call; otherwise the outcome is the device's, except that \<open>Read\<close> into the
  non-empty buffer reports a read of zero bytes as \<open>io.EOF\<close>.
\<close>

definition File_Read :: "File option \<Rightarrow> error + string \<Rightarrow> action list \<times> (error + string)" where
  "File_Read fo res =
     (case fo of
        None \<Rightarrow> ([], Inl ErrInvalid)
      | Some f \<Rightarrow> if file_closed f then ([], Inl ErrFileClosed)
                  else ([File_read (file_fd f)], if res = Inr [] then Inl EOF else res))"

definition File_WriteString :: "File option \<Rightarrow> string \<Rightarrow> error option \<Rightarrow> action list \<times> error option" where
  "File_WriteString fo b res =
     (case fo of
        None \<Rightarrow> ([], Some ErrInvalid)
      | Some f \<Rightarrow> if file_closed f then ([], Some ErrFileClosed)
                  else ([File_write (file_fd f) b], res))"

text \<open>The constants of \<open>golang.org/x/sys/unix\<close> (Linux) that the code names.\<close>

definition B9600 :: "32 word" where "B9600 = 0xd"
definition B19200 :: "32 word" where "B19200 = 0xe"
definition B38400 :: "32 word" where "B38400 = 0xf"
definition B57600 :: "32 word" where "B57600 = 0x1001"
definition B115200 :: "32 word" where "B115200 = 0x1002"
definition B230400 :: "32 word" where "B230400 = 0x1003"

definition IGNBRK :: "32 word" where "IGNBRK = 0x1"
definition BRKINT :: "32 word" where "BRKINT = 0x2"
definition PARMRK :: "32 word" where "PARMRK = 0x8"
definition ISTRIP :: "32 word" where "ISTRIP = 0x20"
definition INLCR :: "32 word" where "INLCR = 0x40"
definition IGNCR :: "32 word" where "IGNCR = 0x80"
definition ICRNL :: "32 word" where "ICRNL = 0x100"
definition IXON :: "32 word" where "IXON = 0x400"
definition OPOST :: "32 word" where "OPOST = 0x1"
definition ECHO :: "32 word" where "ECHO = 0x8"
definition ECHONL :: "32 word" where "ECHONL = 0x40"
definition ICANON :: "32 word" where "ICANON = 0x2"
definition ISIG :: "32 word" where "ISIG = 0x1"
definition IEXTEN :: "32 word" where "IEXTEN = 0x8000"
definition CSIZE :: "32 word" where "CSIZE = 0x30"
definition PARENB :: "32 word" where "PARENB = 0x100"
definition CS8 :: "32 word" where "CS8 = 0x30"
definition CBAUD :: "32 word" where "CBAUD = 0x100f"
definition VMIN :: nat where "VMIN = 6"
definition VTIME :: nat where "VTIME = 5"

section \<open>The serial reader\<close>

subsection \<open>baudToUnix\<close>

definition baudToUnix :: "int \<Rightarrow> 32 word" where
  "baudToUnix baud =
     (if baud = 9600 then B9600
      else if baud = 19200 then B19200
      else if baud = 38400 then B38400
      else if baud = 57600 then B57600
      else if baud = 115200 then B115200
      else if baud = 230400 then B230400
      else B115200)"

subsection \<open>Open\<close>

text \<open>
  What the kernel answers to the four fallible calls of \<open>Open\<close>, in the order the code
  makes them.
\<close>

record open_env =
  open_result :: "error + int"
  tcgets_result :: "error + Termios"
  tcsets_result :: "error option"
  pipe_result :: "error + int \<times> int"

text \<open>The attribute block as \<open>Open\<close> rewrites it: raw mode, baud rate, VMIN and VTIME.\<close>

definition Open_termios :: "Config \<Rightarrow> Termios \<Rightarrow> Termios" where
  "Open_termios cfg t =
     (let t1 = t\<lparr>Iflag := Iflag t AND NOT (IGNBRK OR BRKINT OR PARMRK OR ISTRIP OR INLCR
                                          OR IGNCR OR ICRNL OR IXON)\<rparr>;
          t2 = t1\<lparr>Oflag := Oflag t1 AND NOT OPOST\<rparr>;
          t3 = t2\<lparr>Lflag := Lflag t2 AND NOT (ECHO OR ECHONL OR ICANON OR ISIG OR IEXTEN)\<rparr>;
          t4 = t3\<lparr>Cflag := Cflag t3 AND NOT (CSIZE OR PARENB)\<rparr>;
          t5 = t4\<lparr>Cflag := Cflag t4 OR CS8\<rparr>;
          baud = baudToUnix (BaudRate cfg);
          t6 = t5\<lparr>Cflag := Cflag t5 AND NOT CBAUD\<rparr>;
          t7 = t6\<lparr>Cflag := Cflag t6 OR baud\<rparr>;
          t8 = t7\<lparr>Cc := (Cc t7)[VMIN := 1]\<rparr>
      in t8\<lparr>Cc := (Cc t8)[VTIME := 0]\<rparr>)"

text \<open>
  \<open>Open\<close>. A successful \<open>open(2)\<close> enters the new number into the descriptor table,
  and so does \<open>pipe(2)\<close> for its two ends. Every error branch returns at once.
\<close>

definition Open :: "Config \<Rightarrow> open_env \<Rightarrow> kernel \<Rightarrow> (error + SerialReader) \<times> kernel" where
  "Open cfg env k0 =
     (let k1 = log (Sys_open (Device cfg)) k0 in
      case open_result env of
        Inl err \<Rightarrow> (Inl (Errorf ''open failed: '' err), k1)
      | Inr n \<Rightarrow>
          let k2 = log (Sys_tcgets n) (k1\<lparr>fds := insert n (fds k1)\<rparr>) in
          case tcgets_result env of
            Inl err \<Rightarrow> (Inl (Errorf ''get termios: '' err), k2)
          | Inr t \<Rightarrow>
              let termios = Open_termios cfg t;
                  k3 = log (Sys_tcsets n termios) k2 in
              case tcsets_result env of
                Some err \<Rightarrow> (Inl (Errorf ''set termios: '' err), k3)
              | None \<Rightarrow>
                  let k4 = log (Sys_setnonblock n False) k3;
                      k5 = log Sys_pipe k4 in
                  case pipe_result env of
                    Inl err \<Rightarrow> (Inl (Errorf ''pipe: '' err), k5)
                  | Inr (r, w) \<Rightarrow>
                      (Inr \<lparr>fd = n, file_ptr = NewFile n (Device cfg), done_ch = False,
                            closeOnce = False, config = cfg, pipeR = r, pipeW = w\<rparr>,
                       k5\<lparr>fds := insert r (insert w (fds k5))\<rparr>))"

subsection \<open>WriteLine\<close>

definition WriteLine :: "string \<Rightarrow> string \<Rightarrow> error option \<Rightarrow> SerialReader \<Rightarrow> action list \<times> error option" where
  "WriteLine line newline res s = File_WriteString (file_ptr s) (line @ newline) res"

subsection \<open>The readiness loop\<close>

text \<open>
  One pass of the loop sees: whether \<open>unix.Poll\<close> failed; whether \<open>done\<close> has been
  closed by a concurrent \<open>Close\<close> by the time of the \<open>select\<close>; the \<open>POLLIN\<close> bits of
  the two descriptors; and what \<open>s.file.Read\<close> yields if it is called (the error, or
  \<open>buf[:n]\<close>).
\<close>

record pass =
  poll_err :: "error option"
  closed_by_now :: bool
  pipe_in :: bool
  fd_in :: bool
  read_result :: "error + string"

definition data :: "string \<Rightarrow> pass" where
  "data chunk = \<lparr>poll_err = None, closed_by_now = False, pipe_in = False, fd_in = True,
                 read_result = Inr chunk\<rparr>"


definition idle :: pass where
  "idle = \<lparr>poll_err = None, closed_by_now = False, pipe_in = False, fd_in = False,
           read_result = Inr []\<rparr>"

definition pre :: "action list \<Rightarrow> action list \<times> 'a \<Rightarrow> action list \<times> 'a" where
  "pre as p = (as @ fst p, snd p)"

text \<open>
  \<open>ReadLine\<close>, run against the passes the environment offers. The result is \<open>None\<close>
  while the call is still blocked in \<open>Poll\<close> after the last pass, else what it returned.
\<close>

fun ReadLine_loop :: "SerialReader \<Rightarrow> string \<Rightarrow> pass list \<Rightarrow> action list \<times> (error + string) option" where
  "ReadLine_loop s line [] = ([], None)"
| "ReadLine_loop s line (p # ps) =
     pre [Sys_poll (fd s) (pipeR s)]
      (case poll_err p of
         Some err \<Rightarrow> ([], Some (Inl err))
       | None \<Rightarrow>
           if done_ch s \<or> closed_by_now p then ([], Some (Inl ErrSerialReaderClosed))
           else if pipe_in p then ([Sys_read (pipeR s)], Some (Inl ErrSerialReaderClosed))
           else if fd_in p then
             (case File_Read (file_ptr s) (read_result p) of
                (as, Inl err) \<Rightarrow> (as, Some (Inl err))
              | (as, Inr chunk) \<Rightarrow>
                  let line' = line @ chunk;
                      idx = Index line' (Delimiter (config s))
                  in if idx \<ge> 0 then (as, Some (Inr (take (nat idx) line')))
                     else pre as (ReadLine_loop s line' ps))
           else ReadLine_loop s line ps)"

definition ReadLine :: "SerialReader \<Rightarrow> pass list \<Rightarrow> action list \<times> (error + string) option" where
  "ReadLine s ps = ReadLine_loop s [] ps"

text \<open>
  The inner loop of \<open>ReadLinesLoop\<close>: the arguments of the \<open>onLine\<close> calls, in order,
  and the buffer left. The loop need not end, so not returning is \<open>None\<close>.
\<close>

partial_function (option) extract_lines :: "string \<Rightarrow> string \<Rightarrow> (string list \<times> string) option" where
  "extract_lines delim line =
     (let idx = Index line delim in
      if idx < 0 then Some ([], line)
      else Option.bind (extract_lines delim (drop (nat idx + length delim) line))
             (\<lambda>(ls, rest). Some (take (nat idx) line # ls, rest)))"

declare extract_lines.simps [code]

text \<open>
  \<open>ReadLinesLoop\<close>. It returns nothing, so the outcome is where it stands after the
  last pass: returned, or blocked in \<open>Poll\<close> holding the accumulation buffer.
\<close>

datatype standing = Returned | Blocked string

fun ReadLinesLoop_loop :: "SerialReader \<Rightarrow> string \<Rightarrow> pass list \<Rightarrow> (action list \<times> standing) option" where
  "ReadLinesLoop_loop s line [] = Some ([], Blocked line)"
| "ReadLinesLoop_loop s line (p # ps) =
     map_option (pre [Sys_poll (fd s) (pipeR s)])
      (case poll_err p of
         Some err \<Rightarrow> Some ([OnError err], Returned)
       | None \<Rightarrow>
           if done_ch s \<or> closed_by_now p then Some ([], Returned)
           else if pipe_in p then Some ([Sys_read (pipeR s)], Returned)
           else if fd_in p then
             (case File_Read (file_ptr s) (read_result p) of
                (as, Inl err) \<Rightarrow> Some (as @ [OnError err], Returned)
              | (as, Inr chunk) \<Rightarrow>
                  (case extract_lines (Delimiter (config s)) (line @ chunk) of
                     None \<Rightarrow> None
                   | Some (ls, rest) \<Rightarrow>
                       map_option (pre (as @ map OnLine ls)) (ReadLinesLoop_loop s rest ps)))
           else ReadLinesLoop_loop s line ps)"

definition ReadLinesLoop :: "SerialReader \<Rightarrow> pass list \<Rightarrow> (action list \<times> standing) option" where
  "ReadLinesLoop s ps = ReadLinesLoop_loop s [] ps"

fun lines_of :: "action list \<Rightarrow> string list" where
  "lines_of [] = []"
| "lines_of (OnLine l # as) = l # lines_of as"
| "lines_of (a # as) = lines_of as"

subsection \<open>Close\<close>

text \<open>
  \<open>Close\<close>. \<open>res\<close> is what the kernel reports for closing the device through its
  handle; the results of the other calls are dropped by the code.
\<close>

definition Close :: "error option \<Rightarrow> SerialReader \<Rightarrow> kernel \<Rightarrow> error option \<times> SerialReader \<times> kernel" where
  "Close res s k =
     (if closeOnce s then (None, s, k)
      else
        let k1 = log Chan_close k;
            k2 = (if pipeW s > 0 then log (Sys_write (pipeW s) [CHR 0x01]) k1 else k1);
            (err, fo, k3) = (case file_ptr s of
                               None \<Rightarrow> (None, None, k2)
                             | Some f \<Rightarrow> (let (r, f', k') = File_Close res f k2
                                          in (r, Some f', k')));
            k4 = snd (sys_close None (fd s) k3);
            k5 = (if pipeR s > 0 then snd (sys_close None (pipeR s) k4) else k4);
            k6 = (if pipeW s > 0 then snd (sys_close None (pipeW s) k5) else k5)
        in (err, s\<lparr>file_ptr := fo, done_ch := True, closeOnce := True\<rparr>, k6))"

text \<open>\<open>Close\<close> called once per element of the list, one call after the other.\<close>

fun Close_calls :: "error option list \<Rightarrow> SerialReader \<Rightarrow> kernel \<Rightarrow> error option list \<times> SerialReader \<times> kernel" where
  "Close_calls [] s k = ([], s, k)"
| "Close_calls (res # rs) s k =
     (let (err, s', k') = Close res s k;
          (errs, s'', k'') = Close_calls rs s' k'
      in (err # errs, s'', k''))"

section \<open>Vocabulary of the statements\<close>

text \<open>
  The delimiter occurs in \<open>s\<close> at position \<open>i\<close>; the positions of all its occurrences,
  ascending.
\<close>

definition occurs_at :: "string \<Rightarrow> string \<Rightarrow> nat \<Rightarrow> bool" where
  "occurs_at d s i \<longleftrightarrow> i \<le> length s \<and> prefix d (drop i s)"

definition occurrences :: "string \<Rightarrow> string \<Rightarrow> nat list" where
  "occurrences d s = filter (occurs_at d s) [0..<Suc (length s)]"

text \<open>
  The occurrences counted from the left without overlap: a position is kept when it is
  not before \<open>lo\<close>, the end of the occurrence kept last (\<open>n\<close> is the delimiter's length).
\<close>

fun disjoint_from :: "nat \<Rightarrow> nat \<Rightarrow> nat list \<Rightarrow> nat list" where
  "disjoint_from n lo [] = []"
| "disjoint_from n lo (p # ps) =
     (if lo \<le> p then p # disjoint_from n (p + n) ps else disjoint_from n lo ps)"

text \<open>
  The pieces of \<open>s\<close> strictly between successive delimiters at the positions given: from
  \<open>lo\<close> up to the first position, then from the end of each delimiter to the next
  position.
\<close>

fun between :: "nat \<Rightarrow> nat \<Rightarrow> nat list \<Rightarrow> string \<Rightarrow> string list" where
  "between n lo [] s = []"
| "between n lo (p # ps) s = take (p - lo) (drop lo s) # between n (p + n) ps s"

text \<open>No two of the positions are closer than the delimiter is long.\<close>

definition no_overlap :: "nat \<Rightarrow> nat list \<Rightarrow> bool" where
  "no_overlap n ps \<longleftrightarrow> (\<forall>i \<in> set ps. \<forall>j \<in> set ps. i < j \<longrightarrow> i + n \<le> j)"

text \<open>A reader as \<open>Open\<close> returns it and nobody has closed it.\<close>

definition is_open :: "SerialReader \<Rightarrow> bool" where
  "is_open s \<longleftrightarrow> \<not> done_ch s \<and> \<not> closeOnce s \<and> (\<exists>f. file_ptr s = Some f \<and> \<not> file_closed f)"

text \<open>A kernel with the three standard descriptors open, and an \<open>Open\<close> that succeeds in it.\<close>

definition kernel0 :: kernel where
  "kernel0 = \<lparr>fds = {0, 1, 2}, trace = []\<rparr>"

definition termios0 :: Termios where
  "termios0 = \<lparr>Iflag = 0x500, Oflag = 0x5, Cflag = 0xbd, Lflag = 0x8a3b, Cc = replicate 19 0\<rparr>"

definition env_ok :: open_env where
  "env_ok = \<lparr>open_result = Inr 3, tcgets_result = Inr termios0, tcsets_result = None,
             pipe_result = Inr (4, 5)\<rparr>"

definition cfg_of :: "string \<Rightarrow> Config" where
  "cfg_of d = \<lparr>Device = ''/dev/ttyUSB0'', BaudRate = 115200, Delimiter = d, ReadTimeout = 0\<rparr>"

definition reader_of :: "string \<Rightarrow> SerialReader" where
  "reader_of d = \<lparr>fd = 3,
     file_ptr = Some \<lparr>file_fd = 3, file_name = ''/dev/ttyUSB0'', file_closed = False\<rparr>,
     done_ch = False, closeOnce = False, config = cfg_of d, pipeR = 4, pipeW = 5\<rparr>"

definition kernel_opened :: "Config \<Rightarrow> kernel" where
  "kernel_opened cfg = \<lparr>fds = {0, 1, 2, 3, 4, 5},
     trace = [Sys_open (Device cfg), Sys_tcgets 3, Sys_tcsets 3 (Open_termios cfg termios0),
              Sys_setnonblock 3 False, Sys_pipe]\<rparr>"

definition CRLF :: string where
  "CRLF = [CHR 0x0D, CHR 0x0A]"

text \<open>The same \<open>Open\<close> with the attribute commit failing.\<close>

definition env_tcsets_fails :: open_env where
  "env_tcsets_fails = env_ok\<lparr>tcsets_result := Some EIO\<rparr>"

text \<open>What \<open>Close\<close> does to that reader: the reader after it, and the calls it makes.\<close>

definition closed_reader_of :: "string \<Rightarrow> SerialReader" where
  "closed_reader_of d = \<lparr>fd = 3,
     file_ptr = Some \<lparr>file_fd = 3, file_name = ''/dev/ttyUSB0'', file_closed = True\<rparr>,
     done_ch = True, closeOnce = True, config = cfg_of d, pipeR = 4, pipeW = 5\<rparr>"

definition Close_actions :: "error option \<Rightarrow> action list" where
  "Close_actions r = [Chan_close, Sys_write 5 [CHR 0x01], Sys_close 3 r, Sys_close 3 (Some EBADF),
     Sys_close 4 None, Sys_close 5 None]"


text \<open>
  The bytes a pass hands to the loop when the loop reads in it, and the bytes of a
  sequence of passes, in order.
\<close>

definition chunk_of :: "pass \<Rightarrow> string" where
  "chunk_of p = (if fd_in p then (case read_result p of Inr c \<Rightarrow> c | Inl e \<Rightarrow> []) else [])"

definition received :: "pass list \<Rightarrow> string" where
  "received ps = concat (map chunk_of ps)"

section \<open>Facts about the library functions\<close>

lemma Index_empty [simp]: "Index s [] = 0"
  by (cases s) simp_all

lemma Index_range: "- 1 \<le> Index s d \<and> Index s d \<le> int (length s)"
  by (induction s) (auto simp: Let_def)

lemma Index_found:
  "0 \<le> Index s d \<Longrightarrow> s = take (nat (Index s d)) s @ d @ drop (nat (Index s d) + length d) s"
proof (induction s)
  case Nil
  then show ?case by (auto split: if_splits)
next
  case (Cons c s)
  show ?case
  proof (cases "prefix d (c # s)")
    case True
    then show ?thesis by (auto simp: prefix_def)
  next
    case False
    with Cons.prems have i: "0 \<le> Index s d" "Index (c # s) d = Index s d + 1"
      by (auto simp: Let_def split: if_splits)
    have n: "nat (Index s d + 1) = Suc (nat (Index s d))" using i(1) by simp
    from Cons.IH[OF i(1)] show ?thesis
      unfolding i(2) n by simp
  qed
qed

lemma Index_shortens:
  assumes "0 \<le> Index s d"
  shows "length (drop (nat (Index s d) + length d) s) + length d \<le> length s"
proof -
  have "length s = length (take (nat (Index s d)) s @ d @ drop (nat (Index s d) + length d) s)"
    using Index_found[OF assms] by simp
  then have "length s = length (take (nat (Index s d)) s) +
      (length d + length (drop (nat (Index s d) + length d) s))"
    by (simp only: length_append)
  then show ?thesis by linarith
qed

section \<open>The inner loop of ReadLinesLoop\<close>

lemma extract_lines_returns: "d \<noteq> [] \<Longrightarrow> \<exists>y. extract_lines d line = Some y"
proof (induction "length line" arbitrary: line rule: less_induct)
  case less
  show ?case
  proof (cases "Index line d < 0")
    case True
    then show ?thesis by (subst extract_lines.simps) simp
  next
    case False
    hence ge: "0 \<le> Index line d" by simp
    let ?rest = "drop (nat (Index line d) + length d) line"
    from Index_shortens[OF ge] less.prems have "length ?rest < length line"
      by (cases d) auto
    from less.hyps[OF this less.prems] obtain y where "extract_lines d ?rest = Some y" by blast
    then show ?thesis using False
      by (subst extract_lines.simps) (auto simp: Let_def split: prod.splits)
  qed
qed

lemma extract_lines_Some_nonempty:
  assumes "extract_lines d line = Some y"
  shows "d \<noteq> []"
proof (rule extract_lines.raw_induct[where P = "\<lambda>d l y. d \<noteq> []", OF _ assms])
  fix f delim ln r
  assume IH: "\<And>dl b y. f dl b = Some y \<Longrightarrow> dl \<noteq> []"
    and body: "(let idx = Index ln delim in
        if idx < 0 then Some ([], ln)
        else Option.bind (f delim (drop (nat idx + length delim) ln))
               (\<lambda>(ls, rest). Some (take (nat idx) ln # ls, rest))) = Some r"
  show "delim \<noteq> []"
  proof
    assume e: "delim = []"
    with body obtain y' where "f [] ln = Some y'"
      by (auto simp: bind_eq_Some_conv)
    with IH show False by blast
  qed
qed

lemma extract_lines_empty_delimiter: "extract_lines [] line = None"
  using extract_lines_Some_nonempty[of "[]" line] by (cases "extract_lines [] line") auto

section \<open>The baud-rate table\<close>

text \<open>
  Claim C8. \<open>baudToUnix\<close> is defined on every integer: each of 9600, 19200, 38400,
  57600, 115200 and 230400 maps to its own constant (the six constants are pairwise
  different), and every other integer maps to the constant of 115200. No input is an
  error.
\<close>

theorem baudToUnix_total:
  "baudToUnix 9600 = B9600 \<and> baudToUnix 19200 = B19200 \<and> baudToUnix 38400 = B38400 \<and>
   baudToUnix 57600 = B57600 \<and> baudToUnix 115200 = B115200 \<and> baudToUnix 230400 = B230400 \<and>
   (\<forall>baud. baud \<notin> {9600, 19200, 38400, 57600, 115200, 230400} \<longrightarrow> baudToUnix baud = B115200) \<and>
   distinct [B9600, B19200, B38400, B57600, B115200, B230400]"
  by (simp add: baudToUnix_def B9600_def B19200_def B38400_def B57600_def B115200_def B230400_def)

theorem baudToUnix_total_witness:
  "(300::int) \<notin> {9600, 19200, 38400, 57600, 115200, 230400} \<and> baudToUnix 300 = B115200"
  using baudToUnix_total by simp

section \<open>Termination of the line extraction\<close>

text \<open>
  Claim C10. With a non-empty delimiter the inner loop of \<open>ReadLinesLoop\<close> returns on
  every buffer, and each line it extracts takes at least the delimiter's length off the
  buffer, which gets strictly shorter. The hypothesis is needed: with the empty delimiter
  the loop never returns, on any buffer.
\<close>

theorem extract_lines_terminates:
  "(delim \<noteq> [] \<longrightarrow>
      (\<exists>ls rest. extract_lines delim line = Some (ls, rest)) \<and>
      (0 \<le> Index line delim \<longrightarrow>
         length (drop (nat (Index line delim) + length delim) line) + length delim \<le> length line \<and>
         length (drop (nat (Index line delim) + length delim) line) < length line)) \<and>
   extract_lines [] line = None"
proof -
  have "length (drop (nat (Index line delim) + length delim) line) < length line"
    if "delim \<noteq> []" "0 \<le> Index line delim"
    using Index_shortens[OF that(2)] that(1) by (cases delim) auto
  then show ?thesis
    using extract_lines_returns[of delim line] Index_shortens[of line delim]
      extract_lines_empty_delimiter[of line]
    by auto
qed

theorem extract_lines_terminates_witness:
  "''xy'' \<noteq> [] \<and> (\<exists>ls rest. extract_lines ''xy'' ''axybxyc'' = Some (ls, rest)) \<and>
   0 \<le> Index ''axybxyc'' ''xy'' \<and>
   length (drop (nat (Index ''axybxyc'' ''xy'') + length ''xy'') ''axybxyc'') < length ''axybxyc''"
  using extract_lines_terminates[of "''xy''" "''axybxyc''"] by simp


section \<open>Open\<close>

lemma Open_succeeds:
  "Open (cfg_of d) env_ok kernel0 = (Inr (reader_of d), kernel_opened (cfg_of d))"
  by (simp add: Open_def env_ok_def kernel0_def log_def NewFile_def reader_of_def
      kernel_opened_def cfg_of_def insert_commute)

text \<open>
  Claim C9. When \<open>Open\<close> has opened the device and then the attribute fetch, the
  attribute commit or the pipe creation fails, it returns that error wrapped, and the
  device descriptor is still in the descriptor table afterwards: \<open>Open\<close> has issued no
  close at all.
\<close>

theorem Open_error_keeps_descriptor:
  assumes "open_result env = Inr n"
    and "(\<exists>e. tcgets_result env = Inl e) \<or> (\<exists>e. tcsets_result env = Some e) \<or>
         (\<exists>e. pipe_result env = Inl e)"
  shows "\<exists>msg e k' as. Open cfg env k = (Inl (Errorf msg e), k') \<and>
           msg \<in> {''get termios: '', ''set termios: '', ''pipe: ''} \<and>
           (tcgets_result env = Inl e \<or> tcsets_result env = Some e \<or> pipe_result env = Inl e) \<and>
           fds k' = insert n (fds k) \<and> trace k' = trace k @ as \<and>
           (\<forall>m r. Sys_close m r \<notin> set as)"
proof (cases "tcgets_result env")
  case (Inl e)
  with assms(1) show ?thesis by (simp add: Open_def log_def)
next
  case t: (Inr t)
  show ?thesis
  proof (cases "tcsets_result env")
    case (Some e)
    with assms(1) t show ?thesis by (simp add: Open_def log_def)
  next
    case None
    with assms(2) t obtain e where "pipe_result env = Inl e" by auto
    with assms(1) t None show ?thesis by (simp add: Open_def log_def)
  qed
qed

theorem Open_error_keeps_descriptor_witness:
  "open_result env_tcsets_fails = Inr 3 \<and> tcsets_result env_tcsets_fails = Some EIO \<and>
   fst (Open (cfg_of ''x'') env_tcsets_fails kernel0) = Inl (Errorf ''set termios: '' EIO) \<and>
   fds (snd (Open (cfg_of ''x'') env_tcsets_fails kernel0)) = {0, 1, 2, 3}"
proof -
  have 1: "open_result env_tcsets_fails = Inr 3" and 2: "tcsets_result env_tcsets_fails = Some EIO"
    by (simp_all add: env_tcsets_fails_def env_ok_def)
  from Open_error_keeps_descriptor[of env_tcsets_fails 3 "cfg_of ''x''" kernel0] 1 2
  obtain msg e k' where "Open (cfg_of ''x'') env_tcsets_fails kernel0 = (Inl (Errorf msg e), k')"
    "fds k' = insert 3 (fds kernel0)" by blast
  moreover have "fst (Open (cfg_of ''x'') env_tcsets_fails kernel0) = Inl (Errorf ''set termios: '' EIO)"
    by (simp add: Open_def env_tcsets_fails_def env_ok_def log_def)
  ultimately show ?thesis using 1 2 by (auto simp: kernel0_def)
qed


section \<open>Close\<close>

lemma Close_again: "closeOnce s \<Longrightarrow> Close r s k = (None, s, k)"
  by (simp add: Close_def)

lemma Close_sets_once: "Close r s k = (err, s', k') \<Longrightarrow> closeOnce s'"
  by (auto simp: Close_def Let_def split: if_splits prod.splits option.splits)

lemma Close_calls_closed:
  "closeOnce s \<Longrightarrow> Close_calls rs s k = (replicate (length rs) None, s, k)"
  by (induction rs) (simp_all add: Close_again)

lemma count_sys_close [simp]:
  "count_list (trace (snd (sys_close r n k))) Chan_close = count_list (trace k) Chan_close"
  by (simp add: sys_close_def Let_def)

lemma count_File_Close [simp]:
  "count_list (trace (snd (snd (File_Close r f k)))) Chan_close = count_list (trace k) Chan_close"
  by (simp add: File_Close_def sys_close_def Let_def)

lemma Close_first:
  assumes "\<not> closeOnce s" "Close r s k = (err, s', k')"
  shows "count_list (trace k') Chan_close = Suc (count_list (trace k) Chan_close)"
  using assms
  by (auto simp: Close_def Let_def log_def split: prod.splits option.splits if_splits
      dest!: arg_cong[where f = "\<lambda>p. count_list (trace (snd (snd p))) Chan_close"])

lemma Close_first_result:
  assumes "\<not> closeOnce s" "Close r s k = (err, s', k')"
    "file_ptr s = Some f" "\<not> file_closed f" "file_fd f \<in> fds k"
  shows "err = r"
  using assms
  by (auto simp: Close_def Let_def log_def File_Close_def sys_close_def
      split: prod.splits option.splits if_splits)

lemma Close_reader_of:
  "Close r (reader_of d) (kernel_opened cfg) =
     (r, closed_reader_of d,
      \<lparr>fds = {0, 1, 2}, trace = trace (kernel_opened cfg) @ Close_actions r\<rparr>)"
  by (simp add: Close_def reader_of_def kernel_opened_def File_Close_def sys_close_def log_def
      Let_def closed_reader_of_def Close_actions_def insert_Diff_if)

text \<open>
  Claim C3, as stated: each of the \<open>N\<close> calls of \<open>Close\<close> returns no error. It fails
  for two calls on a freshly opened reader when the kernel reports an I/O error for
  closing the device: the first call returns that error.
\<close>

theorem Close_first_call_error_counterexample:
  "fst (Close_calls [Some EIO, None] (reader_of CRLF) (kernel_opened (cfg_of CRLF))) = [Some EIO, None]"
  by (simp add: Close_reader_of Close_again closed_reader_of_def)

text \<open>
  Claim C3, amended. Of \<open>N \<ge> 1\<close> calls of \<open>Close\<close> on a reader not closed before,
  the first performs the teardown and returns what closing the device handle returned
  (the kernel's answer, when the handle and its descriptor are open); every later call
  changes nothing and returns no error, so the teardown has run exactly once.
\<close>

theorem Close_idempotent:
  assumes "\<not> closeOnce s" and "Close r s k = (err, s', k')"
  shows "Close_calls (r # rs) s k = (err # replicate (length rs) None, s', k') \<and>
         count_list (trace k') Chan_close = Suc (count_list (trace k) Chan_close) \<and>
         (\<forall>f. file_ptr s = Some f \<and> \<not> file_closed f \<and> file_fd f \<in> fds k \<longrightarrow> err = r)"
  using assms Close_calls_closed[OF Close_sets_once[OF assms(2)], of rs k']
    Close_first[OF assms] Close_first_result[OF assms]
  by auto

theorem Close_idempotent_witness:
  "\<not> closeOnce (reader_of CRLF) \<and>
   fst (Close_calls [None, Some EIO, None] (reader_of CRLF) (kernel_opened (cfg_of CRLF)))
     = [None, None, None]"
proof -
  have 1: "\<not> closeOnce (reader_of CRLF)" by (simp add: reader_of_def)
  obtain err s' k' where 2: "Close None (reader_of CRLF) (kernel_opened (cfg_of CRLF)) = (err, s', k')"
    by (cases "Close None (reader_of CRLF) (kernel_opened (cfg_of CRLF))") auto
  have "err = None"
    using Close_idempotent[OF 1 2, of "[]"]
    by (simp add: reader_of_def kernel_opened_def)
  with Close_idempotent[OF 1 2, of "[Some EIO, None]"] 1 show ?thesis by simp
qed


text \<open>
  Claim C6. The claim asks that no resource be closed twice. For a reader that \<open>Open\<close>
  returned, \<open>Close\<close> closes the device descriptor through the handle and then closes the
  same descriptor number again; the second close finds it released (\<open>EBADF\<close>).
\<close>

theorem Close_closes_device_descriptor_twice:
  assumes "Open cfg env k0 = (Inr s, k)" and "0 \<le> fd s"
  shows "\<exists>as bs. trace (snd (snd (Close r s k))) =
           trace k @ as @ [Sys_close (fd s) r, Sys_close (fd s) (Some EBADF)] @ bs"
proof -
  from assms have f: "file_ptr s = Some \<lparr>file_fd = fd s, file_name = Device cfg, file_closed = False\<rparr>"
    and o: "\<not> closeOnce s" and m: "fd s \<in> fds k"
    by (auto simp: Open_def Let_def log_def NewFile_def split: sum.splits option.splits prod.splits)
  define k1 where "k1 = log Chan_close k"
  define k2 where "k2 = (if pipeW s > 0 then log (Sys_write (pipeW s) [CHR 0x01]) k1 else k1)"
  have t2: "\<exists>as. trace k2 = trace k @ as" and m2: "fd s \<in> fds k2"
    using m by (auto simp: k2_def k1_def log_def)
  then obtain as where as: "trace k2 = trace k @ as" by blast
  define k4 where "k4 = snd (sys_close None (fd s) (snd (sys_close r (fd s) k2)))"
  have t4: "trace k4 = trace k @ as @ [Sys_close (fd s) r, Sys_close (fd s) (Some EBADF)]"
    using as m2 by (simp add: k4_def sys_close_def Let_def)
  define k5 where "k5 = (if pipeR s > 0 then snd (sys_close None (pipeR s) k4) else k4)"
  define k6 where "k6 = (if pipeW s > 0 then snd (sys_close None (pipeW s) k5) else k5)"
  have t6: "\<exists>bs. trace k6 = trace k4 @ bs"
    by (auto simp: k6_def k5_def sys_close_def Let_def)
  have "snd (snd (Close r s k)) = k6"
    using o f by (simp add: Close_def Let_def File_Close_def k6_def k5_def k4_def k2_def k1_def
        split: prod.splits)
  with t4 t6 show ?thesis by auto
qed

theorem Close_closes_device_descriptor_twice_witness:
  "Open (cfg_of CRLF) env_ok kernel0 = (Inr (reader_of CRLF), kernel_opened (cfg_of CRLF)) \<and>
   0 \<le> fd (reader_of CRLF) \<and>
   [a \<leftarrow> trace (snd (snd (Close None (reader_of CRLF) (kernel_opened (cfg_of CRLF))))).
      a = Sys_close 3 None \<or> a = Sys_close 3 (Some EBADF)]
     = [Sys_close 3 None, Sys_close 3 (Some EBADF)]"
proof -
  have 1: "Open (cfg_of CRLF) env_ok kernel0 = (Inr (reader_of CRLF), kernel_opened (cfg_of CRLF))"
    by (simp add: Open_def env_ok_def kernel0_def log_def NewFile_def reader_of_def
      kernel_opened_def cfg_of_def insert_commute)
  have 2: "0 \<le> fd (reader_of CRLF)" by (simp add: reader_of_def)
  from Close_closes_device_descriptor_twice[OF 1 2, of None]
  obtain as bs where "trace (snd (snd (Close None (reader_of CRLF) (kernel_opened (cfg_of CRLF))))) =
     trace (kernel_opened (cfg_of CRLF)) @ as @
       [Sys_close (fd (reader_of CRLF)) None, Sys_close (fd (reader_of CRLF)) (Some EBADF)] @ bs"
    by blast
  have "[a \<leftarrow> trace (snd (snd (Close None (reader_of CRLF) (kernel_opened (cfg_of CRLF))))).
      a = Sys_close 3 None \<or> a = Sys_close 3 (Some EBADF)]
     = [Sys_close 3 None, Sys_close 3 (Some EBADF)]"
    unfolding Close_reader_of by (simp add: Close_actions_def kernel_opened_def EBADF_def)
  with 1 2 show ?thesis by blast
qed

section \<open>The empty delimiter\<close>

text \<open>
  Claim C4. The claim asks that a configuration with the delimiter left empty frame lines
  on CR LF. \<open>Open\<close> stores the empty delimiter as it is. On the chunk \<open>ab\<close> CR LF,
  \<open>ReadLine\<close> then returns the empty line where the CR LF reader returns \<open>ab\<close>, and
  \<open>ReadLinesLoop\<close> never leaves its inner loop where the CR LF reader delivers \<open>ab\<close>.
\<close>

theorem empty_delimiter_is_not_CRLF:
  "fst (Open (cfg_of []) env_ok kernel0) = Inr (reader_of []) \<and>
   Delimiter (config (reader_of [])) = [] \<and>
   snd (ReadLine (reader_of []) [data (''ab'' @ CRLF)]) = Some (Inr []) \<and>
   snd (ReadLine (reader_of CRLF) [data (''ab'' @ CRLF)]) = Some (Inr ''ab'') \<and>
   ReadLinesLoop (reader_of []) [data (''ab'' @ CRLF)] = None \<and>
   ReadLinesLoop (reader_of CRLF) [data (''ab'' @ CRLF)] =
     Some ([Sys_poll 3 4, File_read 3, OnLine ''ab''], Blocked [])"
proof -
  have 1: "fst (Open (cfg_of []) env_ok kernel0) = Inr (reader_of [])"
    by (simp add: Open_def env_ok_def kernel0_def log_def NewFile_def reader_of_def cfg_of_def)
  have 2: "Delimiter (config (reader_of [])) = []"
    by (simp add: reader_of_def cfg_of_def)
  have 3: "snd (ReadLine (reader_of []) [data (''ab'' @ CRLF)]) = Some (Inr [])"
    by (simp add: ReadLine_def reader_of_def cfg_of_def data_def pre_def File_Read_def CRLF_def)
  have 4: "snd (ReadLine (reader_of CRLF) [data (''ab'' @ CRLF)]) = Some (Inr ''ab'')"
    by (simp add: ReadLine_def reader_of_def cfg_of_def data_def pre_def File_Read_def CRLF_def)
  have 5: "ReadLinesLoop (reader_of []) [data (''ab'' @ CRLF)] = None"
    by (simp add: ReadLinesLoop_def reader_of_def cfg_of_def data_def File_Read_def
        extract_lines_empty_delimiter)
  have e: "extract_lines CRLF (''ab'' @ CRLF) = Some ([''ab''], [])"
    by (simp add: extract_lines.simps CRLF_def)
  have 6: "ReadLinesLoop (reader_of CRLF) [data (''ab'' @ CRLF)] =
     Some ([Sys_poll 3 4, File_read 3, OnLine ''ab''], Blocked [])"
    using e by (simp add: ReadLinesLoop_def reader_of_def cfg_of_def data_def File_Read_def pre_def)
  from 1 2 3 4 5 6 show ?thesis by blast
qed

section \<open>The wakeup signal\<close>






section \<open>Operations after Close\<close>

text \<open>
  Claim C5, as stated: every operation after a completed \<open>Close\<close> fails with a
  closed-state error and does not touch the released resources. It fails for
  \<open>ReadLinesLoop\<close> on the reader closed above: the loop waits in \<open>Poll\<close> on the
  descriptor numbers 3 and 4, which are no longer open, and returns with no callback
  invoked.
\<close>

theorem after_Close_counterexample:
  "fst (snd (Close None (reader_of CRLF) (kernel_opened (cfg_of CRLF)))) = closed_reader_of CRLF \<and>
   fds (snd (snd (Close None (reader_of CRLF) (kernel_opened (cfg_of CRLF))))) = {0, 1, 2} \<and>
   ReadLinesLoop (closed_reader_of CRLF) [idle] = Some ([Sys_poll 3 4], Returned)"
  by (simp add: Close_reader_of ReadLinesLoop_def closed_reader_of_def idle_def pre_def)

text \<open>
  Claim C5, amended. After a completed \<open>Close\<close>: \<open>ReadLine\<close> waits once in \<open>Poll\<close>
  on the released descriptor numbers and returns the wait's error if it failed, else the
  error \<open>serialreader closed\<close>; \<open>ReadLinesLoop\<close> makes the same wait and returns,
  passing a failed wait's error to the error callback and otherwise invoking no callback;
  \<open>WriteLine\<close> issues no system call and returns the error of the closed (or nil)
  device handle.
\<close>

theorem operations_after_Close:
  assumes "\<not> closeOnce s" and "Close r s k = (err, s', k')"
  shows "ReadLine s' (p # ps) =
           ([Sys_poll (fd s) (pipeR s)],
            Some (Inl (case poll_err p of Some e \<Rightarrow> e | None \<Rightarrow> ErrSerialReaderClosed))) \<and>
         ReadLinesLoop s' (p # ps) =
           Some (Sys_poll (fd s) (pipeR s) #
                   (case poll_err p of Some e \<Rightarrow> [OnError e] | None \<Rightarrow> []), Returned) \<and>
         WriteLine line newline w s' =
           ([], Some (if file_ptr s = None then ErrInvalid else ErrFileClosed)) \<and>
         fd s \<notin> fds k'"
proof -
  from assms have s': "done_ch s'" "fd s' = fd s" "pipeR s' = pipeR s"
    by (auto simp: Close_def Let_def split: prod.splits if_splits)
  have f: "file_ptr s = None \<longrightarrow> file_ptr s' = None"
    "file_ptr s \<noteq> None \<longrightarrow> (\<exists>f. file_ptr s' = Some f \<and> file_closed f)"
  proof -
    show "file_ptr s = None \<longrightarrow> file_ptr s' = None"
      using assms by (auto simp: Close_def Let_def split: prod.splits)
    show "file_ptr s \<noteq> None \<longrightarrow> (\<exists>f. file_ptr s' = Some f \<and> file_closed f)"
    proof
      assume "file_ptr s \<noteq> None"
      then obtain f0 where f0: "file_ptr s = Some f0" by auto
      show "\<exists>f. file_ptr s' = Some f \<and> file_closed f"
        using assms f0
        by (cases "file_closed f0")
          (auto simp: Close_def Let_def File_Close_def split: prod.splits)
    qed
  qed
  have w: "WriteLine line newline w s' =
           ([], Some (if file_ptr s = None then ErrInvalid else ErrFileClosed))"
    using f by (auto simp: WriteLine_def File_WriteString_def)
  have r: "fd s \<notin> fds k'"
    using assms
    by (auto simp: Close_def Let_def sys_close_def split: prod.splits if_splits)
  show ?thesis using s' w r
    by (auto simp: ReadLine_def ReadLinesLoop_def pre_def split: option.splits)
qed

theorem operations_after_Close_witness:
  "\<not> closeOnce (reader_of CRLF) \<and>
   ReadLine (closed_reader_of CRLF) [data ''x''] = ([Sys_poll 3 4], Some (Inl ErrSerialReaderClosed)) \<and>
   WriteLine ''pong'' CRLF None (closed_reader_of CRLF) = ([], Some ErrFileClosed)"
proof -
  have 1: "\<not> closeOnce (reader_of CRLF)" by (simp add: reader_of_def)
  have 2: "Close None (reader_of CRLF) (kernel_opened (cfg_of CRLF)) =
     (None, closed_reader_of CRLF,
      \<lparr>fds = {0, 1, 2}, trace = trace (kernel_opened (cfg_of CRLF)) @ Close_actions None\<rparr>)"
    by (rule Close_reader_of)
  from operations_after_Close[OF 1 2, of "data ''x''" "[]" "''pong''" CRLF None] 1
  show ?thesis by (simp add: reader_of_def data_def)
qed


section \<open>Occurrences of the delimiter\<close>

lemma Index_occurs: "0 \<le> Index s d \<Longrightarrow> occurs_at d s (nat (Index s d))"
proof -
  assume a: "0 \<le> Index s d"
  let ?i = "nat (Index s d)"
  from Index_found[OF a] have s: "s = take ?i s @ d @ drop (?i + length d) s" .
  have le: "?i \<le> length s" using Index_range[of s d] by (simp add: nat_le_iff)
  have "drop ?i s = d @ drop (?i + length d) s"
    by (metis s append_eq_conv_conj append_take_drop_id)
  with le show ?thesis by (simp add: occurs_at_def)
qed

lemma Index_least: "occurs_at d s j \<Longrightarrow> 0 \<le> Index s d \<and> Index s d \<le> int j"
proof (induction s arbitrary: j)
  case Nil
  then show ?case by (simp add: occurs_at_def)
next
  case (Cons c s)
  show ?case
  proof (cases "prefix d (c # s)")
    case True
    then show ?thesis by simp
  next
    case False
    with Cons.prems obtain j' where j: "j = Suc j'" "occurs_at d s j'"
      by (cases j) (auto simp: occurs_at_def)
    from Cons.IH[OF j(2)] False j(1) show ?thesis by (simp add: Let_def)
  qed
qed

lemma Index_negative: "Index s d < 0 \<Longrightarrow> \<not> occurs_at d s j"
  using Index_least[of d s j] by auto

lemma sublist_occurs: "sublist d s \<longleftrightarrow> (\<exists>j. occurs_at d s j)"
proof
  assume "sublist d s"
  then obtain u v where "s = u @ d @ v" by (auto simp: sublist_def)
  then have "occurs_at d s (length u)" by (simp add: occurs_at_def)
  then show "\<exists>j. occurs_at d s j" ..
next
  assume "\<exists>j. occurs_at d s j"
  then obtain j v where "j \<le> length s" "drop j s = d @ v"
    by (auto simp: occurs_at_def prefix_def)
  then have "s = take j s @ d @ v" by (metis append_take_drop_id)
  then show "sublist d s" by (auto simp: sublist_def)
qed

lemma Index_negative_sublist: "Index s d < 0 \<longleftrightarrow> \<not> sublist d s"
proof (cases "Index s d < 0")
  case True
  then show ?thesis using Index_negative[of s d] by (simp add: sublist_occurs)
next
  case False
  then have "occurs_at d s (nat (Index s d))" using Index_occurs[of s d] by simp
  then show ?thesis using False by (auto simp: sublist_occurs)
qed

lemma occurs_at_bound: "occurs_at d s i \<Longrightarrow> i + length d \<le> length s"
proof -
  assume "occurs_at d s i"
  then obtain v where "i \<le> length s" "drop i s = d @ v"
    by (auto simp: occurs_at_def prefix_def)
  then have "length s - i = length d + length v" by (metis length_drop length_append)
  with \<open>i \<le> length s\<close> show ?thesis by linarith
qed

lemma occurs_at_take:
  assumes "occurs_at d (take i s) j"
  shows "occurs_at d s j \<and> j + length d \<le> i"
proof -
  from assms have j: "j \<le> length s" and p: "prefix d (take (i - j) (drop j s))"
    by (simp_all add: occurs_at_def drop_take)
  have "prefix d (drop j s)"
    using p take_is_prefix[of "i - j" "drop j s"] by (rule prefix_order.trans)
  moreover have "j + length d \<le> i" using occurs_at_bound[OF assms] by simp
  ultimately show ?thesis using j by (simp add: occurs_at_def)
qed

lemma occurs_at_append:
  "occurs_at d (a @ b) j \<Longrightarrow> j + length d \<le> length a \<Longrightarrow> occurs_at d a j"
proof -
  assume o: "occurs_at d (a @ b) j" and l: "j + length d \<le> length a"
  then have "prefix d (drop j a @ b)" by (simp add: occurs_at_def)
  moreover have "prefix (drop j a) (drop j a @ b)" by simp
  moreover have "length d \<le> length (drop j a)" using l by simp
  ultimately have "prefix d (drop j a)" by (rule prefix_length_prefix)
  with l show ?thesis by (simp add: occurs_at_def)
qed

lemma Index_line_clean:
  assumes "0 \<le> Index s d" "d \<noteq> []"
  shows "\<not> sublist d (take (nat (Index s d)) s)"
proof
  assume "sublist d (take (nat (Index s d)) s)"
  then obtain j where "occurs_at d (take (nat (Index s d)) s) j" by (auto simp: sublist_occurs)
  from occurs_at_take[OF this] Index_least[of d s j] assms show False
    by (cases d) auto
qed

lemma extract_lines_none: "Index line d < 0 \<Longrightarrow> extract_lines d line = Some ([], line)"
  by (subst extract_lines.simps) simp

lemma extract_lines_hit:
  "0 \<le> Index line d \<Longrightarrow> extract_lines d line =
     Option.bind (extract_lines d (drop (nat (Index line d) + length d) line))
       (\<lambda>(ls, rest). Some (take (nat (Index line d)) line # ls, rest))"
  by (subst extract_lines.simps) (simp add: Let_def)

lemma extract_lines_induct [consumes 1, case_names step]:
  assumes "d \<noteq> []"
    and "\<And>line. (0 \<le> Index line d \<Longrightarrow> P (drop (nat (Index line d) + length d) line)) \<Longrightarrow> P line"
  shows "P line"
proof (induction "length line" arbitrary: line rule: less_induct)
  case less
  show ?case
  proof (rule assms(2))
    assume ge: "0 \<le> Index line d"
    from Index_shortens[OF ge] assms(1)
    have "length (drop (nat (Index line d) + length d) line) < length line"
      by (cases d) auto
    then show "P (drop (nat (Index line d) + length d) line)" by (rule less.hyps)
  qed
qed

lemma extract_lines_frames:
  assumes "d \<noteq> []"
  shows "extract_lines d line = Some (ls, rest) \<Longrightarrow>
     line = concat (map (\<lambda>l. l @ d) ls) @ rest \<and> (\<forall>l \<in> set ls. \<not> sublist d l) \<and> Index rest d < 0"
  using assms
proof (induction line arbitrary: ls rule: extract_lines_induct)
  case (step line)
  show ?case
  proof (cases "Index line d < 0")
    case True
    with step.prems show ?thesis by (simp add: extract_lines_none)
  next
    case False
    then have ge: "0 \<le> Index line d" by simp
    let ?i = "nat (Index line d)"
    from step.prems obtain ls' where
      e: "extract_lines d (drop (?i + length d) line) = Some (ls', rest)" and
      ls: "ls = take ?i line # ls'"
      by (auto simp: extract_lines_hit[OF ge] bind_eq_Some_conv)
    from step.IH[OF ge e] have
      ih: "drop (?i + length d) line = concat (map (\<lambda>l. l @ d) ls') @ rest"
        "\<forall>l \<in> set ls'. \<not> sublist d l" "Index rest d < 0" by auto
    from Index_found[OF ge] ih(1)
    have "line = take ?i line @ d @ concat (map (\<lambda>l. l @ d) ls') @ rest" by simp
    then show ?thesis using ih(2,3) ls Index_line_clean[OF ge assms] by simp
  qed
qed

lemma Index_append:
  assumes "0 \<le> Index a d"
  shows "Index (a @ b) d = Index a d"
proof -
  let ?i = "nat (Index a d)"
  from Index_occurs[OF assms] have "occurs_at d (a @ b) ?i"
    by (auto simp: occurs_at_def prefix_def)
  from Index_least[OF this] have up: "0 \<le> Index (a @ b) d" "Index (a @ b) d \<le> Index a d"
    using assms by auto
  let ?j = "nat (Index (a @ b) d)"
  have "occurs_at d (a @ b) ?j" using Index_occurs[OF up(1)] .
  moreover have "?j + length d \<le> length a"
    using up assms occurs_at_bound[OF Index_occurs[OF assms]] by linarith
  ultimately have "occurs_at d a ?j" by (rule occurs_at_append)
  from Index_least[OF this] up show ?thesis by simp
qed

section \<open>Framing across chunks\<close>

lemma extract_lines_append:
  assumes "d \<noteq> []"
  shows "extract_lines d a = Some (ls, r) \<Longrightarrow>
     extract_lines d (a @ b) =
       map_option (\<lambda>(ls', r'). (ls @ ls', r')) (extract_lines d (r @ b))"
  using assms
proof (induction a arbitrary: ls rule: extract_lines_induct)
  case (step a)
  show ?case
  proof (cases "Index a d < 0")
    case True
    with step.prems have "ls = []" "r = a" by (simp_all add: extract_lines_none)
    then show ?thesis by (simp add: option.map_ident case_prod_unfold)
  next
    case False
    then have ge: "0 \<le> Index a d" by simp
    let ?i = "nat (Index a d)"
    from step.prems obtain ls' where
      e: "extract_lines d (drop (?i + length d) a) = Some (ls', r)" and
      ls: "ls = take ?i a # ls'"
      by (auto simp: extract_lines_hit[OF ge] bind_eq_Some_conv)
    have b: "?i + length d \<le> length a" using occurs_at_bound[OF Index_occurs[OF ge]] .
    have ge': "0 \<le> Index (a @ b) d" and eq: "Index (a @ b) d = Index a d"
      using Index_append[OF ge, of b] ge by simp_all
    have "extract_lines d (a @ b) =
       Option.bind (extract_lines d (drop (?i + length d) a @ b))
         (\<lambda>(ls, rest). Some (take ?i a # ls, rest))"
      using b by (simp add: extract_lines_hit[OF ge'] eq)
    also have "extract_lines d (drop (?i + length d) a @ b) =
       map_option (\<lambda>(ls'', r'). (ls' @ ls'', r')) (extract_lines d (r @ b))"
      by (rule step.IH[OF ge e])
    finally show ?thesis
      by (cases "extract_lines d (r @ b)") (auto simp: ls)
  qed
qed

lemma lines_of_append [simp]: "lines_of (as @ bs) = lines_of as @ lines_of bs"
  by (induction as rule: lines_of.induct) simp_all

lemma lines_of_OnLine [simp]: "lines_of (map OnLine ls) = ls"
  by (induction ls) simp_all

lemma File_Read_cases:
  "File_Read fo res = (as, r) \<Longrightarrow>
     lines_of as = [] \<and> (\<forall>c. r = Inr c \<longrightarrow> res = Inr c)"
  by (auto simp: File_Read_def split: option.splits if_splits)

lemma File_Read_open:
  "fo = Some f \<Longrightarrow> \<not> file_closed f \<Longrightarrow> c \<noteq> [] \<Longrightarrow>
     File_Read fo (Inr c) = ([File_read (file_fd f)], Inr c)"
  by (simp add: File_Read_def)

lemma ReadLinesLoop_loop_data:
  assumes "is_open s" and "Delimiter (config s) = d" and "d \<noteq> []"
  shows "Index line d < 0 \<Longrightarrow> [] \<notin> set chunks \<Longrightarrow>
     \<exists>as rest. ReadLinesLoop_loop s line (map data chunks) = Some (as, Blocked rest) \<and>
       extract_lines d (line @ concat chunks) = Some (lines_of as, rest)"
proof (induction chunks arbitrary: line)
  case Nil
  then show ?case by (simp add: extract_lines_none)
next
  case (Cons c chunks)
  from assms(1) obtain f where f: "file_ptr s = Some f" "\<not> file_closed f" and nd: "\<not> done_ch s"
    by (auto simp: is_open_def)
  from extract_lines_returns[OF assms(3), of "line @ c"] obtain ls r
    where e: "extract_lines d (line @ c) = Some (ls, r)" by auto
  from extract_lines_frames[OF assms(3) e] have "Index r d < 0" by simp
  from Cons.prems(2) have ne: "c \<noteq> []" and nes: "[] \<notin> set chunks" by auto
  from Cons.IH[OF \<open>Index r d < 0\<close> nes] obtain as rest where
    ih: "ReadLinesLoop_loop s r (map data chunks) = Some (as, Blocked rest)"
      "extract_lines d (r @ concat chunks) = Some (lines_of as, rest)" by blast
  let ?acts = "Sys_poll (fd s) (pipeR s) # File_read (file_fd f) # map OnLine ls @ as"
  have A: "ReadLinesLoop_loop s line (map data (c # chunks)) = Some (?acts, Blocked rest)"
    using nd e ih(1) by (simp add: data_def File_Read_open[OF f ne] assms(2) pre_def)
  have "extract_lines d (line @ concat (c # chunks)) = Some (ls @ lines_of as, rest)"
    using extract_lines_append[OF assms(3) e, of "concat chunks"] ih(2) by simp
  then have B: "extract_lines d (line @ concat (c # chunks)) = Some (lines_of ?acts, rest)"
    by simp
  from A B show ?case by blast
qed

lemma occurs_at_drop:
  "lo \<le> length s \<Longrightarrow> occurs_at d (drop lo s) j \<longleftrightarrow> occurs_at d s (lo + j)"
  by (auto simp: occurs_at_def add.commute)

lemma disjoint_from_skip:
  "(\<forall>x \<in> set xs. x < lo) \<Longrightarrow> disjoint_from n lo (xs @ ys) = disjoint_from n lo ys"
  by (induction xs) auto

lemma occurrences_split:
  assumes "occurs_at d s p"
  shows "occurrences d s = filter (occurs_at d s) [0..<p] @ p #
           filter (occurs_at d s) [Suc p..<Suc (length s)]"
proof -
  from assms have p: "p \<le> length s" by (simp add: occurs_at_def)
  then have "[0..<Suc (length s)] = [0..<p] @ p # [Suc p..<Suc (length s)]"
    using upt_add_eq_append[of 0 p "Suc (length s) - p"] upt_conv_Cons[of p "Suc (length s)"]
    by simp
  then show ?thesis using assms by (simp add: occurrences_def)
qed

lemma disjoint_from_none:
  assumes "\<And>j. lo \<le> j \<Longrightarrow> \<not> occurs_at d s j"
  shows "disjoint_from n lo (occurrences d s) = []"
proof -
  have "\<forall>x \<in> set (occurrences d s). x < lo"
    using assms by (auto simp: occurrences_def not_le[symmetric])
  from disjoint_from_skip[OF this, of n "[]"] show ?thesis by simp
qed

lemma disjoint_from_first:
  assumes "d \<noteq> []" and "occurs_at d s p" and "lo \<le> p"
    and "\<And>j. lo \<le> j \<Longrightarrow> j < p \<Longrightarrow> \<not> occurs_at d s j"
  shows "disjoint_from (length d) lo (occurrences d s) =
           p # disjoint_from (length d) (p + length d) (occurrences d s)"
proof -
  let ?front = "filter (occurs_at d s) [0..<p]"
  let ?tail = "filter (occurs_at d s) [Suc p..<Suc (length s)]"
  have occ: "occurrences d s = ?front @ p # ?tail" by (rule occurrences_split[OF assms(2)])
  have f: "\<forall>x \<in> set ?front. x < lo" using assms(4) by (auto simp: not_le[symmetric])
  have "disjoint_from (length d) lo (occurrences d s) = disjoint_from (length d) lo (p # ?tail)"
    unfolding occ using f by (rule disjoint_from_skip)
  also have "\<dots> = p # disjoint_from (length d) (p + length d) ?tail"
    using assms(3) by simp
  also have "disjoint_from (length d) (p + length d) ?tail =
      disjoint_from (length d) (p + length d) ((?front @ [p]) @ ?tail)"
    using assms(1) by (intro disjoint_from_skip[symmetric]) (cases d, auto)
  also have "(?front @ [p]) @ ?tail = occurrences d s" using occ by simp
  finally show ?thesis .
qed

lemma extract_lines_positions:
  assumes "d \<noteq> []"
  shows "line = drop lo s \<Longrightarrow> lo \<le> length s \<Longrightarrow>
     \<exists>rest. extract_lines d line =
       Some (between (length d) lo (disjoint_from (length d) lo (occurrences d s)) s, rest)"
  using assms
proof (induction line arbitrary: lo rule: extract_lines_induct)
  case (step line)
  show ?case
  proof (cases "Index line d < 0")
    case True
    have "\<not> occurs_at d s j" if "lo \<le> j" for j
    proof -
      from that have "j = lo + (j - lo)" by simp
      then show ?thesis
        using Index_negative[OF True, of "j - lo"] step.prems
        by (metis occurs_at_drop)
    qed
    then have "disjoint_from (length d) lo (occurrences d s) = []" by (rule disjoint_from_none)
    with True show ?thesis by (simp add: extract_lines_none)
  next
    case False
    then have ge: "0 \<le> Index line d" by simp
    let ?i = "nat (Index line d)"
    let ?p = "lo + ?i"
    have p: "occurs_at d s ?p"
      using Index_occurs[OF ge] step.prems by (simp add: occurs_at_drop)
    have least: "\<not> occurs_at d s j" if "lo \<le> j" "j < ?p" for j
    proof
      assume "occurs_at d s j"
      with that(1) step.prems have "occurs_at d line (j - lo)"
        by (simp add: occurs_at_drop)
      from Index_least[OF this] that show False by linarith
    qed
    have first: "disjoint_from (length d) lo (occurrences d s) =
        ?p # disjoint_from (length d) (?p + length d) (occurrences d s)"
      using assms p _ least by (rule disjoint_from_first) simp
    have b: "?p + length d \<le> length s" by (rule occurs_at_bound[OF p])
    have "drop (?i + length d) line = drop (?p + length d) s"
      using step.prems by (simp add: add.commute add.left_commute)
    from step.IH[OF ge this b] obtain rest where
      "extract_lines d (drop (?i + length d) line) =
         Some (between (length d) (?p + length d)
                 (disjoint_from (length d) (?p + length d) (occurrences d s)) s, rest)"
      by blast
    then have "extract_lines d line =
         Some (take ?i line # between (length d) (?p + length d)
                 (disjoint_from (length d) (?p + length d) (occurrences d s)) s, rest)"
      by (simp add: extract_lines_hit[OF ge])
    moreover have "take ?i line = take (?p - lo) (drop lo s)"
      using step.prems by simp
    ultimately show ?thesis unfolding first by simp
  qed
qed

lemma length_between [simp]: "length (between n lo ps s) = length ps"
  by (induction ps arbitrary: lo) simp_all

lemma disjoint_from_all:
  "sorted_wrt (<) ps \<Longrightarrow> no_overlap n ps \<Longrightarrow> (\<forall>p \<in> set ps. lo \<le> p) \<Longrightarrow>
     disjoint_from n lo ps = ps"
proof (induction ps arbitrary: lo)
  case Nil
  then show ?case by simp
next
  case (Cons p ps)
  have "\<forall>q \<in> set ps. p + n \<le> q" using Cons.prems(1,2) by (auto simp: no_overlap_def)
  moreover have "no_overlap n ps" using Cons.prems(2) by (auto simp: no_overlap_def)
  ultimately have "disjoint_from n (p + n) ps = ps" using Cons.prems(1) Cons.IH by simp
  then show ?case using Cons.prems(3) by simp
qed

lemma sorted_occurrences: "sorted_wrt (<) (occurrences d s)"
  unfolding occurrences_def by (intro sorted_wrt_filter sorted_wrt_upt)

section \<open>Delivered lines\<close>

lemma received_Cons: "received (p # ps) = chunk_of p @ received ps"
  by (simp add: received_def)

lemma received_Nil [simp]: "received [] = []"
  by (simp add: received_def)

lemma File_Read_chunk:
  "File_Read fo (read_result p) = (as, Inr c) \<Longrightarrow> fd_in p \<Longrightarrow> chunk_of p = c"
  by (auto simp: File_Read_def chunk_of_def split: option.splits if_splits)

lemma ReadLine_loop_line:
  assumes "Delimiter (config s) = d" and "d \<noteq> []"
  shows "snd (ReadLine_loop s line ps) = Some (Inr l) \<Longrightarrow>
     \<not> sublist d l \<and> (\<exists>j rest. line @ received (take j ps) = l @ d @ rest)"
proof (induction ps arbitrary: line)
  case Nil
  then show ?case by simp
next
  case (Cons p ps)
  from Cons.prems have np: "poll_err p = None" "\<not> done_ch s" "\<not> closed_by_now p" "\<not> pipe_in p"
    by (auto simp: pre_def split: option.splits if_splits)
  show ?case
  proof (cases "fd_in p")
    case False
    with Cons.prems np have "snd (ReadLine_loop s line ps) = Some (Inr l)"
      by (simp add: pre_def)
    from Cons.IH[OF this] obtain j rest where
      "\<not> sublist d l" "line @ received (take j ps) = l @ d @ rest" by blast
    moreover have "chunk_of p = []" using False by (simp add: chunk_of_def)
    ultimately have "line @ received (take (Suc j) (p # ps)) = l @ d @ rest"
      by (simp add: received_Cons)
    with \<open>\<not> sublist d l\<close> show ?thesis by blast
  next
    case True
    obtain as r where fr: "File_Read (file_ptr s) (read_result p) = (as, r)"
      by (cases "File_Read (file_ptr s) (read_result p)")
    with Cons.prems np True obtain c where r: "r = Inr c"
      by (cases r) (auto simp: pre_def)
    have c: "chunk_of p = c" using File_Read_chunk fr r True by blast
    show ?thesis
    proof (cases "0 \<le> Index (line @ c) d")
      case ge: True
      with Cons.prems np True fr r assms(1)
      have l: "l = take (nat (Index (line @ c) d)) (line @ c)"
        by (simp add: pre_def Let_def)
      from Index_found[OF ge]
      have "line @ received (take (Suc 0) (p # ps)) = l @ d @
          drop (nat (Index (line @ c) d) + length d) (line @ c)"
        unfolding l by (simp add: received_Cons c)
      moreover have "\<not> sublist d l" unfolding l by (rule Index_line_clean[OF ge assms(2)])
      ultimately show ?thesis by blast
    next
      case False
      with Cons.prems np True fr r assms(1)
      have "snd (ReadLine_loop s (line @ c) ps) = Some (Inr l)"
        by (simp add: pre_def Let_def)
      from Cons.IH[OF this] obtain j rest where
        "\<not> sublist d l" "(line @ c) @ received (take j ps) = l @ d @ rest" by blast
      then have "line @ received (take (Suc j) (p # ps)) = l @ d @ rest"
        by (simp add: received_Cons c)
      with \<open>\<not> sublist d l\<close> show ?thesis by blast
    qed
  qed
qed

lemma lines_of_File_Read:
  "File_Read fo res = (as, r) \<Longrightarrow> lines_of as = []"
  by (auto simp: File_Read_def split: option.splits if_splits)

lemma ReadLinesLoop_loop_lines:
  assumes "Delimiter (config s) = d" and "d \<noteq> []"
  shows "ReadLinesLoop_loop s line ps = Some (acts, st) \<Longrightarrow>
     (\<forall>l \<in> set (lines_of acts). \<not> sublist d l) \<and>
     (\<exists>j rest. line @ received (take j ps) = concat (map (\<lambda>l. l @ d) (lines_of acts)) @ rest)"
proof (induction ps arbitrary: line acts)
  case Nil
  then have "lines_of acts = []" by auto
  then show ?case by simp
next
  case (Cons p ps)
  let ?poll = "Sys_poll (fd s) (pipeR s)"
  have stop: ?case if "lines_of acts = []"
  proof -
    have "line @ received (take 0 (p # ps)) = concat (map (\<lambda>l. l @ d) (lines_of acts)) @ line"
      using that by (simp add: received_def)
    then show ?thesis using that by (metis empty_iff list.set(1))
  qed
  show ?case
  proof (cases "poll_err p = None \<and> \<not> done_ch s \<and> \<not> closed_by_now p \<and> \<not> pipe_in p")
    case False
    with Cons.prems have "lines_of acts = []"
      by (auto simp: pre_def split: option.splits if_splits)
    then show ?thesis by (rule stop)
  next
    case np: True
    show ?thesis
    proof (cases "fd_in p")
      case False
      with Cons.prems np obtain acts' where
        a: "ReadLinesLoop_loop s line ps = Some (acts', st)" "acts = ?poll # acts'"
        by (auto simp: pre_def)
      from Cons.IH[OF a(1)] obtain j rest where
        ih: "\<forall>l \<in> set (lines_of acts'). \<not> sublist d l"
          "line @ received (take j ps) = concat (map (\<lambda>l. l @ d) (lines_of acts')) @ rest"
        by blast
      have "chunk_of p = []" using False by (simp add: chunk_of_def)
      with ih(2) have "line @ received (take (Suc j) (p # ps)) =
          concat (map (\<lambda>l. l @ d) (lines_of acts)) @ rest"
        by (simp add: received_Cons a(2))
      with ih(1) a(2) show ?thesis by (metis lines_of.simps(8))
    next
      case True
      obtain as r where fr: "File_Read (file_ptr s) (read_result p) = (as, r)"
        by (cases "File_Read (file_ptr s) (read_result p)")
      have las: "lines_of as = []" by (rule lines_of_File_Read[OF fr])
      show ?thesis
      proof (cases r)
        case (Inl e)
        with Cons.prems np True fr have "acts = ?poll # as @ [OnError e]"
          by (auto simp: pre_def)
        then have "lines_of acts = []" using las by simp
        then show ?thesis by (rule stop)
      next
        case (Inr c)
        have c: "chunk_of p = c" using File_Read_chunk fr Inr True by blast
        from Cons.prems np True fr Inr assms(1) obtain ls r1 acts' where
          e: "extract_lines d (line @ c) = Some (ls, r1)" and
          a: "ReadLinesLoop_loop s r1 ps = Some (acts', st)" and
          acts: "acts = ?poll # as @ map OnLine ls @ acts'"
          by (auto simp: pre_def split: option.splits)
        from extract_lines_frames[OF assms(2) e] have
          f: "line @ c = concat (map (\<lambda>l. l @ d) ls) @ r1" "\<forall>l \<in> set ls. \<not> sublist d l"
          by auto
        from Cons.IH[OF a] obtain j rest where
          ih: "\<forall>l \<in> set (lines_of acts'). \<not> sublist d l"
            "r1 @ received (take j ps) = concat (map (\<lambda>l. l @ d) (lines_of acts')) @ rest"
          by blast
        have lo: "lines_of acts = ls @ lines_of acts'" using acts las by simp
        have "line @ received (take (Suc j) (p # ps)) = (line @ c) @ received (take j ps)"
          by (simp add: received_Cons c)
        also have "\<dots> = concat (map (\<lambda>l. l @ d) ls) @ (r1 @ received (take j ps))"
          using f(1) by simp
        also have "\<dots> = concat (map (\<lambda>l. l @ d) (lines_of acts)) @ rest"
          unfolding ih(2) lo by simp
        finally have "\<exists>j rest. line @ received (take j (p # ps)) =
            concat (map (\<lambda>l. l @ d) (lines_of acts)) @ rest" by blast
        moreover have "\<forall>l \<in> set (lines_of acts). \<not> sublist d l"
          using f(2) ih(1) lo by auto
        ultimately show ?thesis by blast
      qed
    qed
  qed
qed

text \<open>
  Claim C2, as stated, for every delimiter value: a delivered line contains no occurrence
  of the delimiter. It fails for the empty delimiter: \<open>ReadLine\<close> returns the empty line
  on the first chunk, and the empty delimiter occurs in it (at index 0).
\<close>

theorem delivered_line_counterexample:
  "snd (ReadLine (reader_of []) [data ''x'']) = Some (Inr []) \<and>
   Delimiter (config (reader_of [])) = [] \<and> sublist [] ([] :: string) \<and> Index [] [] = 0"
  by (simp add: ReadLine_def reader_of_def cfg_of_def data_def pre_def File_Read_def)

text \<open>
  Claim C2, amended. For every non-empty delimiter and every sequence of passes: the line
  \<open>ReadLine\<close> returns and every line \<open>ReadLinesLoop\<close> hands to the line callback
  contain no occurrence of the delimiter, and the delimiters are taken out of the buffer
  and not delivered: the bytes received up to some pass are the returned line, the
  delimiter and a remainder, respectively each delivered line followed by the delimiter,
  in order, and a remainder.
\<close>

theorem delivered_lines_exclude_delimiter:
  assumes "Delimiter (config s) = d" and "d \<noteq> []"
  shows "(snd (ReadLine s ps) = Some (Inr l) \<longrightarrow>
            \<not> sublist d l \<and> (\<exists>j rest. received (take j ps) = l @ d @ rest)) \<and>
         (ReadLinesLoop s ps = Some (acts, st) \<longrightarrow>
            (\<forall>l \<in> set (lines_of acts). \<not> sublist d l) \<and>
            (\<exists>j rest. received (take j ps) = concat (map (\<lambda>l. l @ d) (lines_of acts)) @ rest))"
  using ReadLine_loop_line[OF assms, of "[]" ps l]
    ReadLinesLoop_loop_lines[OF assms, of "[]" ps acts st]
  by (simp add: ReadLine_def ReadLinesLoop_def)

theorem delivered_lines_exclude_delimiter_witness:
  "Delimiter (config (reader_of ''ab'')) = ''ab'' \<and> ''ab'' \<noteq> [] \<and>
   snd (ReadLine (reader_of ''ab'') [data ''xa'', idle, data ''bya'']) = Some (Inr ''x'') \<and>
   \<not> sublist ''ab'' ''x''"
proof -
  have 1: "Delimiter (config (reader_of ''ab'')) = ''ab''" by (simp add: reader_of_def cfg_of_def)
  have 2: "''ab'' \<noteq> []" by simp
  have 3: "snd (ReadLine (reader_of ''ab'') [data ''xa'', idle, data ''bya'']) = Some (Inr ''x'')"
    by (simp add: ReadLine_def reader_of_def cfg_of_def data_def idle_def pre_def File_Read_def)
  from delivered_lines_exclude_delimiter[OF 1 2, of "[data ''xa'', idle, data ''bya'']" "''x''"] 1 2 3
  show ?thesis by blast
qed

section \<open>Lines of the continuous loop\<close>

text \<open>
  Claim C1, as stated: \<open>k\<close> occurrences of the delimiter in the concatenated chunks
  give \<open>k\<close> calls of the line callback. It fails when occurrences overlap: the delimiter
  \<open>aa\<close> occurs twice in \<open>aaa\<close> (at 0 and at 1), and the loop delivers one line and
  keeps \<open>a\<close>.
\<close>

theorem ReadLinesLoop_lines_counterexample:
  "length (occurrences ''aa'' (concat [''aaa''])) = 2 \<and>
   ReadLinesLoop (reader_of ''aa'') [data ''aaa''] =
     Some ([Sys_poll 3 4, File_read 3, OnLine []], Blocked ''a'')"
proof -
  have e: "extract_lines ''aa'' ''aaa'' = Some ([[]], ''a'')"
    by (simp add: extract_lines.simps)
  have "occurrences ''aa'' ''aaa'' = [0, 1]" by (simp add: occurrences_def occurs_at_def)
  then show ?thesis using e
    by (simp add: ReadLinesLoop_def reader_of_def cfg_of_def data_def File_Read_def pre_def)
qed

text \<open>
  Claim C1, amended. For every non-empty delimiter and every finite sequence of
  non-empty chunks read by an open reader (a read of zero bytes is an error to the loop
  and ends it), the line callback is invoked once per occurrence of the
  delimiter in the concatenation, counting occurrences from the left without overlap
  (each one the first that starts at or after the end of the one counted before), in
  order, the \<open>i\<close>-th call with the bytes strictly between the \<open>(i-1)\<close>-th and the
  \<open>i\<close>-th of them; the result depends on the concatenation only, not on the chunking.
  When no two occurrences overlap, these are all the occurrences.
\<close>

theorem ReadLinesLoop_lines:
  assumes "is_open s" and "Delimiter (config s) = d" and "d \<noteq> []" and "[] \<notin> set chunks"
  shows "\<exists>as rest. ReadLinesLoop s (map data chunks) = Some (as, Blocked rest) \<and>
     lines_of as = between (length d) 0
                     (disjoint_from (length d) 0 (occurrences d (concat chunks))) (concat chunks) \<and>
     length (lines_of as) = length (disjoint_from (length d) 0 (occurrences d (concat chunks))) \<and>
     (no_overlap (length d) (occurrences d (concat chunks)) \<longrightarrow>
        disjoint_from (length d) 0 (occurrences d (concat chunks)) = occurrences d (concat chunks))"
proof -
  have "Index [] d < 0" using assms(3) by simp
  from ReadLinesLoop_loop_data[OF assms(1,2,3) this assms(4)] obtain as rest where
    l: "ReadLinesLoop s (map data chunks) = Some (as, Blocked rest)" and
    e: "extract_lines d (concat chunks) = Some (lines_of as, rest)"
    by (auto simp: ReadLinesLoop_def)
  from extract_lines_positions[OF assms(3), of "concat chunks" 0 "concat chunks"] e
  have b: "lines_of as = between (length d) 0
                     (disjoint_from (length d) 0 (occurrences d (concat chunks))) (concat chunks)"
    by auto
  then have "length (lines_of as) = length (disjoint_from (length d) 0 (occurrences d (concat chunks)))"
    by simp
  with l b show ?thesis
    using disjoint_from_all[OF sorted_occurrences, of "length d" d "concat chunks" 0] by auto
qed

theorem ReadLinesLoop_lines_witness:
  "is_open (reader_of CRLF) \<and> CRLF \<noteq> [] \<and>
   [] \<notin> set [''a'' @ [CHR 0x0D], [CHR 0x0A] @ ''b'', CRLF] \<and>
   no_overlap (length CRLF)
     (occurrences CRLF (concat [''a'' @ [CHR 0x0D], [CHR 0x0A] @ ''b'', CRLF])) \<and>
   (\<exists>as rest. ReadLinesLoop (reader_of CRLF) (map data [''a'' @ [CHR 0x0D], [CHR 0x0A] @ ''b'', CRLF]) =
        Some (as, Blocked rest) \<and> lines_of as = [''a'', ''b''] \<and>
        length (lines_of as) =
          length (occurrences CRLF (concat [''a'' @ [CHR 0x0D], [CHR 0x0A] @ ''b'', CRLF])))"
proof -
  have 1: "is_open (reader_of CRLF)" by (simp add: is_open_def reader_of_def)
  have 2: "Delimiter (config (reader_of CRLF)) = CRLF" by (simp add: reader_of_def cfg_of_def)
  have 3: "CRLF \<noteq> []" by (simp add: CRLF_def)
  let ?chunks = "[''a'' @ [CHR 0x0D], [CHR 0x0A] @ ''b'', CRLF]"
  have o: "occurrences CRLF (concat ?chunks) = [1, 4]"
    by (simp add: occurrences_def occurs_at_def CRLF_def)
  have 4: "no_overlap (length CRLF) (occurrences CRLF (concat ?chunks))"
    unfolding o by (simp add: no_overlap_def CRLF_def)
  have "between (length CRLF) 0 (occurrences CRLF (concat ?chunks)) (concat ?chunks) = [''a'', ''b'']"
    unfolding o by (simp add: CRLF_def)
  moreover have 5: "[] \<notin> set ?chunks" by (simp add: CRLF_def)
  ultimately show ?thesis using ReadLinesLoop_lines[OF 1 2 3 5] 1 3 4 o by auto
qed

end
